theory Spec2Isabelle
  imports Main
begin

section \<open>Python errors\<close>

text \<open>
  The exceptions the notebooks' own Python functions can raise. Each raise of the source
  is a value \<open>Inl e\<close> of the result type \<open>py_error + 'a\<close>.
\<close>

datatype py_error =
    RuntimeError string
  | AssertionError
  | IndexError
  | AttributeError
  | ValueError
  | TVMError

section \<open>The TFLite notebook: \<open>extract\<close>\<close>

text \<open>
  \<^verbatim>\<open>
  def extract(path):
      import tarfile
      if path.endswith("tgz") or path.endswith("gz"):
          dir_path = os.path.dirname(path)
          tar = tarfile.open(path)
          tar.extractall(path=dir_path)
          tar.close()
      else:
          raise RuntimeError('Could not decompress the file: ' + path)
  \<close>
  \<open>str.endswith\<close> compares the last characters of the string with the suffix.
  The function is named \<open>extract_file\<close> here, \<open>extract\<close> being a keyword of Isabelle.
\<close>

definition endswith :: "string \<Rightarrow> string \<Rightarrow> bool" where
  "endswith s suffix \<longleftrightarrow>
     length suffix \<le> length s \<and> drop (length s - length suffix) s = suffix"

text \<open>
  The successful branch hands the archive to the \<open>tarfile\<close> library: it opens
  \<open>path\<close> and extracts everything below \<open>dir_path\<close>. The library call is recorded
  as the request the function makes; \<open>os.path.dirname\<close> belongs to Python's standard
  library and is a parameter of the model.
\<close>

record tar_request =
  archive :: string
  extract_to :: string

definition extract_file :: "(string \<Rightarrow> string) \<Rightarrow> string \<Rightarrow> py_error + tar_request" where
  "extract_file os_path_dirname path =
     (if endswith path ''tgz'' \<or> endswith path ''gz'' then
        (let dir_path = os_path_dirname path
         in Inr \<lparr>archive = path, extract_to = dir_path\<rparr>)
      else Inl (RuntimeError (''Could not decompress the file: '' @ path)))"

section \<open>The intrinsics notebook: custom CUDA lowering rules\<close>

text \<open>
  An expression of the tensor IR, as far as the rules look at it: an intrinsic or extern
  call carries its result dtype, the callee's name, the arguments and the call type; any
  other expression carries a dtype and has no \<open>args\<close> attribute.
\<close>

datatype call_type = Extern | PureExtern | Intrinsic | PureIntrinsic

datatype expr =
    Call string string "expr list" call_type
  | Other string

fun dtype :: "expr \<Rightarrow> string" where
  "dtype (Call dt nm as ct) = dt"
| "dtype (Other dt) = dt"

text \<open>\<open>tvm.call_pure_extern(dtype, func_name, *args)\<close> builds a pure extern call.\<close>

definition call_pure_extern :: "string \<Rightarrow> string \<Rightarrow> expr list \<Rightarrow> expr" where
  "call_pure_extern dt func_name as = Call dt func_name as PureExtern"

text \<open>\<open>op.args[0]\<close>: the first argument, \<open>IndexError\<close> on an empty argument array.\<close>

definition args0 :: "expr list \<Rightarrow> py_error + expr" where
  "args0 as = (case as of [] \<Rightarrow> Inl IndexError | a # _ \<Rightarrow> Inr a)"

text \<open>
  \<^verbatim>\<open>
  def my_cuda_math_rule(op):
      assert isinstance(op, tvm.expr.Call)
      if op.dtype == "float32":
          return tvm.call_pure_extern("float32", "%sf" % op.name, op.args[0])
      elif op.dtype == "float64":
          return tvm.call_pure_extern("float32", op.name, op.args[0])
      else:
          return op
  \<close>
\<close>

fun my_cuda_math_rule :: "expr \<Rightarrow> py_error + expr" where
  "my_cuda_math_rule (Call dt nm as ct) =
     (if dt = ''float32'' then
        (case args0 as of
           Inl e \<Rightarrow> Inl e
         | Inr a \<Rightarrow> Inr (call_pure_extern ''float32'' (nm @ ''f'') [a]))
      else if dt = ''float64'' then
        (case args0 as of
           Inl e \<Rightarrow> Inl e
         | Inr a \<Rightarrow> Inr (call_pure_extern ''float32'' nm [a]))
      else Inr (Call dt nm as ct))"
| "my_cuda_math_rule (Other dt) = Inl AssertionError"

text \<open>
  \<^verbatim>\<open>
  def my_cuda_mylog_rule(op):
      if op.dtype == "float32":
          return tvm.call_pure_extern("float32", "logf", op.args[0])
      elif op.dtype == "float64":
          return tvm.call_pure_extern("float64", "log", op.args[0])
      else:
          return op
  \<close>
  There is no assertion here: an expression that is not a call fails only where the rule
  reads \<open>op.args\<close>.
\<close>

fun my_cuda_mylog_rule :: "expr \<Rightarrow> py_error + expr" where
  "my_cuda_mylog_rule (Call dt nm as ct) =
     (if dt = ''float32'' then
        (case args0 as of
           Inl e \<Rightarrow> Inl e
         | Inr a \<Rightarrow> Inr (call_pure_extern ''float32'' ''logf'' [a]))
      else if dt = ''float64'' then
        (case args0 as of
           Inl e \<Rightarrow> Inl e
         | Inr a \<Rightarrow> Inr (call_pure_extern ''float64'' ''log'' [a]))
      else Inr (Call dt nm as ct))"
| "my_cuda_mylog_rule (Other dt) =
     (if dt = ''float32'' \<or> dt = ''float64'' then Inl AttributeError else Inr (Other dt))"

section \<open>The pass-infrastructure notebook: \<open>alter_conv2d\<close>\<close>

text \<open>
  \<^verbatim>\<open>
  @relay.op.register_alter_op_layout("nn.conv2d", level=101)
  def alter_conv2d(attrs, inputs, tinfos):
      data, weight = inputs
      new_attrs = dict(attrs)
      new_attrs['data_layout'] = 'NCHW16c'
      return relay.nn.conv2d(data, weight, **new_attrs)
  \<close>
  The attributes are a dictionary from attribute names to values. The result is the call
  \<open>relay.nn.conv2d(data, weight, **new_attrs)\<close>, kept as the operands and keyword
  arguments it is made with. Unpacking \<open>inputs\<close> into two names raises
  \<open>ValueError\<close> unless it has exactly two elements.
\<close>

datatype attr_value = AStr string | AInt int | AInts "int list"

type_synonym attrs = "string \<rightharpoonup> attr_value"

datatype 'e relay_call = Conv2d 'e 'e attrs

definition alter_conv2d :: "attrs \<Rightarrow> 'e list \<Rightarrow> 't \<Rightarrow> py_error + 'e relay_call" where
  "alter_conv2d attrs inputs tinfos =
     (case inputs of
        [data, weight] \<Rightarrow>
          (let new_attrs = attrs;
               new_attrs = new_attrs(''data_layout'' \<mapsto> AStr ''NCHW16c'')
           in Inr (Conv2d data weight new_attrs))
      | _ \<Rightarrow> Inl ValueError)"

section \<open>Loops and buffers of the lowered IR\<close>

text \<open>
  The notebooks print the loop nests the schedules lower to. A loop
  \<^verbatim>\<open>for (i, 0, extent) { body }\<close> runs its body for \<open>i = 0, \<dots>, extent - 1\<close> in this
  order, each iteration on the state the previous one left. A buffer is the list of its
  elements; \<open>X[i] = v\<close> is the list update \<open>X[i := v]\<close> and \<open>X[i]\<close> the read \<open>X ! i\<close>.
  Element types are left open: the element-wise kernels need an addition only, the
  reductions a commutative monoid (the mathematical sum the declarations denote).
  Loop variables and extents are natural numbers; a guard of the IR that subtracts is
  evaluated over the integers, as the IR does.
\<close>

primrec for_loop :: "nat \<Rightarrow> (nat \<Rightarrow> 's \<Rightarrow> 's) \<Rightarrow> 's \<Rightarrow> 's" where
  "for_loop 0 body s = s"
| "for_loop (Suc extent) body s = body extent (for_loop extent body s)"

text \<open>C's integer division truncates towards zero.\<close>

definition c_div :: "int \<Rightarrow> int \<Rightarrow> int" where
  "c_div a b = sgn a * sgn b * (\<bar>a\<bar> div \<bar>b\<bar>)"

section \<open>The Get Started notebook: vector addition\<close>

text \<open>
  The declaration \<^verbatim>\<open>C = tvm.compute(A.shape, lambda i: A[i] + B[i], name="C")\<close> with the
  default schedule lowers to
  \<^verbatim>\<open>
  produce C {
    for (i, 0, n) {
      C[i] = (A[i] + B[i])
    }
  }
  \<close>
\<close>

definition vadd_default :: "nat \<Rightarrow> 'a::plus list \<Rightarrow> 'a list \<Rightarrow> 'a list \<Rightarrow> 'a list" where
  "vadd_default n A B C = for_loop n (\<lambda>i C. C[i := A ! i + B ! i]) C"

text \<open>
  After \<^verbatim>\<open>bx, tx = s[C].split(C.op.axis[0], factor=64)\<close> the notebook gives the loop nest
  \<^verbatim>\<open>
  for (int bx = 0; bx < ceil(n / 64); ++bx) {
    for (int tx = 0; tx < 64; ++tx) {
      int i = bx * 64 + tx;
      if (i < n) {
        C[i] = A[i] + B[i];
      }
    }
  }
  \<close>
  The outer extent \<open>ceil(n / 64)\<close> is the rounded-up quotient, which the lowered IR of
  the reduction notebook prints as \<open>(n + 31)/32\<close> and \<open>(m + 15)/16\<close> for the factors
  32 and 16; for the factor 64 it is \<open>(n + 63) div 64\<close>.
\<close>

definition vadd_split :: "nat \<Rightarrow> 'a::plus list \<Rightarrow> 'a list \<Rightarrow> 'a list \<Rightarrow> 'a list" where
  "vadd_split n A B C =
     for_loop ((n + 63) div 64) (\<lambda>bx C.
       for_loop 64 (\<lambda>tx C.
         let i = bx * 64 + tx
         in if i < n then C[i := A ! i + B ! i] else C) C) C"

text \<open>
  With both axes bound to GPU threads, \<open>tvm.build\<close> generates the device function
  \<^verbatim>\<open>
  extern "C" __global__ void myadd_kernel0(float* C, float* A, float* B, int n) {
    if (((int)blockIdx.x) < (n / 64)) {
      C[((((int)blockIdx.x) * 64) + ((int)threadIdx.x))] =
        (A[((((int)blockIdx.x) * 64) + ((int)threadIdx.x))] +
         B[((((int)blockIdx.x) * 64) + ((int)threadIdx.x))]);
    } else {
      if ((((int)blockIdx.x) * 64) < (n - ((int)threadIdx.x))) {
        C[((((int)blockIdx.x) * 64) + ((int)threadIdx.x))] =
          (A[((((int)blockIdx.x) * 64) + ((int)threadIdx.x))] +
           B[((((int)blockIdx.x) * 64) + ((int)threadIdx.x))]);
      }
    }
  }
  \<close>
  \<open>myadd_kernel0\<close> is what one thread does to the buffer \<open>C\<close>. The indices are
  mathematical integers: for the vector lengths of the notebook (1024) every
  intermediate value is far below \<open>2^31\<close>.
\<close>

definition myadd_kernel0 ::
  "'a::plus list \<Rightarrow> 'a list \<Rightarrow> 'a list \<Rightarrow> int \<Rightarrow> int \<Rightarrow> int \<Rightarrow> 'a list" where
  "myadd_kernel0 C A B n blockIdx_x threadIdx_x =
     (if blockIdx_x < c_div n 64 then
        C[nat (blockIdx_x * 64 + threadIdx_x) :=
            A ! nat (blockIdx_x * 64 + threadIdx_x) + B ! nat (blockIdx_x * 64 + threadIdx_x)]
      else if blockIdx_x * 64 < n - threadIdx_x then
        C[nat (blockIdx_x * 64 + threadIdx_x) :=
            A ! nat (blockIdx_x * 64 + threadIdx_x) + B ! nat (blockIdx_x * 64 + threadIdx_x)]
      else C)"

text \<open>
  The launch runs the kernel once for every thread of the grid: \<open>blockIdx.x\<close> ranges over
  the outer axis of the split (extent \<open>(n + 63) / 64\<close>), \<open>threadIdx.x\<close> over the inner
  one (extent 64). The threads are taken block by block here; each thread stores to an
  element of its own and reads only \<open>A\<close> and \<open>B\<close>, so any other order gives the same
  buffer (lemma \<open>myadd_kernel0_commute\<close> below).
\<close>

definition myadd_launch :: "int \<Rightarrow> 'a::plus list \<Rightarrow> 'a list \<Rightarrow> 'a list \<Rightarrow> 'a list" where
  "myadd_launch n A B C =
     for_loop (nat (c_div (n + 63) 64)) (\<lambda>bx C.
       for_loop 64 (\<lambda>tx C. myadd_kernel0 C A B n (int bx) (int tx)) C) C"

text \<open>
  \<^verbatim>\<open>fadd = tvm.build(s, [A, B, C], tgt, target_host=tgt_host, name="myadd")\<close> is the host
  wrapper: \<open>A\<close>, \<open>B\<close> and \<open>C\<close> share the symbolic shape \<open>n\<close>, which the call binds to
  the length of its arguments; arrays of different shapes are refused with an error, as
  the notebook notes. The result is the content of the output array \<open>c\<close> after the call.
\<close>

definition fadd :: "'a::plus list \<Rightarrow> 'a list \<Rightarrow> 'a list \<Rightarrow> py_error + 'a list" where
  "fadd a b c =
     (if length b = length a \<and> length c = length a
      then Inr (myadd_launch (int (length a)) a b c)
      else Inl TVMError)"

section \<open>The reduction notebook: sum of rows\<close>

text \<open>
  The declaration \<^verbatim>\<open>B = tvm.compute((n,), lambda i: tvm.sum(A[i, k], axis=k), name="B")\<close>
  with \<open>k\<close> ranging over \<open>[0, m)\<close>. The \<open>n\<close> by \<open>m\<close> input is the flat row-major
  buffer \<open>A\<close>. Default schedule:
  \<^verbatim>\<open>
  produce B {
    for (i, 0, n) {
      B[i] = 0.000000f
      for (k, 0, m) {
        B[i] = (B[i] + A[((i*m) + k)])
      }
    }
  }
  \<close>
\<close>

definition produce_B_default ::
  "nat \<Rightarrow> nat \<Rightarrow> 'a::comm_monoid_add list \<Rightarrow> 'a list \<Rightarrow> 'a list" where
  "produce_B_default n m A B =
     for_loop n (\<lambda>i B.
       for_loop m (\<lambda>k B. B[i := B ! i + A ! (i * m + k)]) (B[i := 0])) B"

text \<open>
  After splitting the reduction axis by 16 and the row axis by 32:
  \<^verbatim>\<open>
  produce B {
    for (i.outer, 0, ((n + 31)/32)) {
      for (i.inner, 0, 32) {
        if (likely(((i.outer*32) < (n - i.inner)))) {
          B[((i.outer*32) + i.inner)] = 0.000000f
        }
        for (k.outer, 0, ((m + 15)/16)) {
          for (k.inner, 0, 16) {
            if (likely(((i.outer*32) < (n - i.inner)))) {
              if (likely(((k.outer*16) < (m - k.inner)))) {
                B[((i.outer*32) + i.inner)] = (B[((i.outer*32) + i.inner)]
                  + A[(((((i.outer*32) + i.inner)*m) + (k.outer*16)) + k.inner)])
              }
            }
          }
        }
      }
    }
  }
  \<close>
\<close>

definition produce_B_split ::
  "nat \<Rightarrow> nat \<Rightarrow> 'a::comm_monoid_add list \<Rightarrow> 'a list \<Rightarrow> 'a list" where
  "produce_B_split n m A B =
     for_loop ((n + 31) div 32) (\<lambda>i_outer B.
       for_loop 32 (\<lambda>i_inner B.
         for_loop ((m + 15) div 16) (\<lambda>k_outer B.
           for_loop 16 (\<lambda>k_inner B.
             if int i_outer * 32 < int n - int i_inner then
               if int k_outer * 16 < int m - int k_inner then
                 B[i_outer * 32 + i_inner :=
                     B ! (i_outer * 32 + i_inner)
                       + A ! ((((i_outer * 32) + i_inner) * m + k_outer * 16) + k_inner)]
               else B
             else B) B)
           (if int i_outer * 32 < int n - int i_inner
            then B[i_outer * 32 + i_inner := 0] else B)) B) B"

text \<open>
  After splitting the reduction axis by 16 and \<^verbatim>\<open>BF = s.rfactor(B, ki)\<close>:
  \<^verbatim>\<open>
  allocate B.rf[float32 * 16 * n]
  produce B.rf {
    for (k.inner, 0, 16) {
      for (i, 0, n) {
        B.rf[((k.inner*n) + i)] = 0.000000f
        for (k.outer, 0, ((m + 15)/16)) {
          if ((k.inner < (m - (k.outer*16)))) {
            B.rf[((k.inner*n) + i)] = (B.rf[((k.inner*n) + i)]
              + A[((k.inner + (i*m)) + (k.outer*16))])
          }
        }
      }
    }
  }
  produce B {
    for (ax0, 0, n) {
      B[ax0] = 0.000000f
      for (k.inner.v, 0, 16) {
        B[ax0] = (B[ax0] + B.rf[(ax0 + (k.inner.v*n))])
      }
    }
  }
  \<close>
  \<open>produce_B_rf\<close> is the first nest, \<open>produce_B_rfactor\<close> the second. The allocation
  leaves the content of \<open>B.rf\<close> open: it is the argument \<open>B_rf\<close> of \<open>rowsum_rfactor\<close>.
\<close>

definition produce_B_rf ::
  "nat \<Rightarrow> nat \<Rightarrow> 'a::comm_monoid_add list \<Rightarrow> 'a list \<Rightarrow> 'a list" where
  "produce_B_rf n m A B_rf =
     for_loop 16 (\<lambda>k_inner B_rf.
       for_loop n (\<lambda>i B_rf.
         for_loop ((m + 15) div 16) (\<lambda>k_outer B_rf.
           if int k_inner < int m - int k_outer * 16
           then B_rf[k_inner * n + i :=
                  B_rf ! (k_inner * n + i) + A ! ((k_inner + i * m) + k_outer * 16)]
           else B_rf) (B_rf[k_inner * n + i := 0])) B_rf) B_rf"

definition produce_B_rfactor ::
  "nat \<Rightarrow> 'a::comm_monoid_add list \<Rightarrow> 'a list \<Rightarrow> 'a list" where
  "produce_B_rfactor n B_rf B =
     for_loop n (\<lambda>ax0 B.
       for_loop 16 (\<lambda>k_inner_v B. B[ax0 := B ! ax0 + B_rf ! (ax0 + k_inner_v * n)])
         (B[ax0 := 0])) B"

definition rowsum_rfactor ::
  "nat \<Rightarrow> nat \<Rightarrow> 'a::comm_monoid_add list \<Rightarrow> 'a list \<Rightarrow> 'a list \<Rightarrow> 'a list" where
  "rowsum_rfactor n m A B_rf B = produce_B_rfactor n (produce_B_rf n m A B_rf) B"

text \<open>
  What the factored stage is to hold, in the words of the specification: \<open>B.rf(ki, i)\<close>
  is the sum of \<open>A(i, ko*16 + ki)\<close> over all \<open>ko\<close> with \<open>ko*16 + ki < m\<close>.
\<close>

definition rfactor_partial_sum :: "nat \<Rightarrow> 'a::comm_monoid_add list \<Rightarrow> nat \<Rightarrow> nat \<Rightarrow> 'a" where
  "rfactor_partial_sum m A ki i =
     (\<Sum>ko<(m + 15) div 16. if ko * 16 + ki < m then A ! (i * m + (ko * 16 + ki)) else 0)"

section \<open>The extern notebook: a Python callback as a stage\<close>

text \<open>
  \<^verbatim>\<open>
  @tvm.register_func("tvm.contrib.my_tvm_addone")
  def my_tvm_addone(x, y):
      print("my_tvm_addone signatures: %s, %s" % (type(x), type(y)))
      tvm.nd.array(x.asnumpy() + 1).copyto(y)
  \<close>
  The callback returns nothing; its effect is the new content of \<open>y\<close>, which is the
  result here. \<open>copyto\<close> refuses a target of another shape. The printed line is not
  modelled.
\<close>

definition my_tvm_addone :: "'a::{plus,one} list \<Rightarrow> 'a list \<Rightarrow> py_error + 'a list" where
  "my_tvm_addone x y =
     (if length y = length x then Inr (map (\<lambda>v. v + 1) x) else Inl TVMError)"

text \<open>
  The registry of packed functions maps a name to the function registered under it;
  \<open>tvm.call_packed\<close> looks the name up when the stage runs.
\<close>

type_synonym 'a packed_func = "'a list \<Rightarrow> 'a list \<Rightarrow> py_error + 'a list"

definition register_func ::
  "string \<Rightarrow> 'a packed_func \<Rightarrow> (string \<rightharpoonup> 'a packed_func) \<Rightarrow> (string \<rightharpoonup> 'a packed_func)" where
  "register_func name f registry = registry(name \<mapsto> f)"

definition call_packed ::
  "(string \<rightharpoonup> 'a packed_func) \<Rightarrow> string \<Rightarrow> 'a list \<Rightarrow> 'a list \<Rightarrow> py_error + 'a list" where
  "call_packed registry name x y =
     (case registry name of None \<Rightarrow> Inl TVMError | Some f \<Rightarrow> f x y)"

text \<open>
  \<^verbatim>\<open>
  A = tvm.placeholder((n,), name='A')
  B = tvm.extern(A.shape, [A], lambda ins, outs: tvm.call_packed(
      "tvm.contrib.my_tvm_addone", ins[0], outs[0]), name="C")
  s = tvm.create_schedule(B.op)
  f = tvm.build(s, [A, B], "llvm")
  \<close>
  with \<open>n = 1024\<close>. The built function \<open>f\<close> (named \<open>f_addone\<close> here) checks the shapes
  of its two arrays and runs the single extern stage on them.
\<close>

definition f_addone :: "'a::{plus,one} list \<Rightarrow> 'a list \<Rightarrow> py_error + 'a list" where
  "f_addone a b =
     (if length a = 1024 \<and> length b = 1024
      then call_packed
             (register_func ''tvm.contrib.my_tvm_addone'' my_tvm_addone Map.empty)
             ''tvm.contrib.my_tvm_addone'' a b
      else Inl TVMError)"

section \<open>The notebooks as sequences of framework calls\<close>

text \<open>
  A notebook is a straight-line script: its cells run from top to bottom, and within a
  cell the statements run in order. What it does to the framework is the sequence of the
  calls it makes. A schedule is named after the variable that holds it, with a number
  where the notebook creates several (\<open>s_1\<close>, \<open>s_2\<close>, \<dots>): every
  \<open>tvm.create_schedule\<close> makes a new schedule object. A kernel is named after the
  variable the built or loaded module is bound to.
\<close>

datatype step =
    Declare string
  | CreateSchedule string string
  | Transform string string
  | Lower string
  | Build string string
  | Load string string
  | Run string
  | Check string

text \<open>
  \<open>Declare t\<close>: a placeholder, compute or extern tensor \<open>t\<close> is declared.
  \<open>CreateSchedule s t\<close>: \<open>s = tvm.create_schedule(t.op)\<close>.
  \<open>Transform s p\<close>: the schedule primitive \<open>p\<close> is applied to a stage of \<open>s\<close>.
  \<open>Lower s\<close>: \<open>tvm.lower(s, \<dots>)\<close>.
  \<open>Build s f\<close>: \<open>f = tvm.build(s, \<dots>)\<close>.
  \<open>Load g f\<close>: the module \<open>g\<close> is loaded from a file \<open>f\<close> was saved or exported to.
  \<open>Run f\<close>: the kernel \<open>f\<close> is invoked.
  \<open>Check f\<close>: the output of \<open>f\<close> is compared with the NumPy reference.
\<close>

subsection \<open>Get Started: vector addition\<close>

text \<open>
  The notebook binds the axes only for the target \<open>cuda\<close>, loads the saved device
  module (\<open>fadd1_dev\<close>, from \<open>myadd.ptx\<close>) beside the saved host module only for that
  target, and has a second build, run and check for the target \<open>opencl\<close>; the target
  \<open>tgt\<close> is a global of the notebook (set to \<open>cuda\<close>) and a parameter here.
\<close>

definition get_started :: "string \<Rightarrow> step list" where
  "get_started tgt =
     [Declare ''A'', Declare ''B'', Declare ''C'',
      CreateSchedule ''s'' ''C'',
      Lower ''s'',
      Transform ''s'' ''split'']
     @ (if tgt = ''cuda'' then [Transform ''s'' ''bind'', Transform ''s'' ''bind''] else [])
     @ [Build ''s'' ''fadd'',
        Run ''fadd'', Check ''fadd'',
        Load ''fadd1'' ''fadd'']
     @ (if tgt = ''cuda'' then [Load ''fadd1_dev'' ''fadd''] else [])
     @ [Run ''fadd1'', Check ''fadd1'',
        Load ''fadd2'' ''fadd'', Run ''fadd2'', Check ''fadd2'']
     @ (if tgt = ''opencl''
        then [Build ''s'' ''fadd_cl'', Run ''fadd_cl'', Check ''fadd_cl''] else [])"

subsection \<open>Reduction\<close>

definition reduction :: "step list" where
  "reduction =
     [Declare ''A'', Declare ''B'',
      CreateSchedule ''s_1'' ''B'', Lower ''s_1'',
      Transform ''s_1'' ''split'', Transform ''s_1'' ''split'', Lower ''s_1'',
      Transform ''s_1'' ''bind'', Transform ''s_1'' ''bind'', Lower ''s_1'',
      CreateSchedule ''s_2'' ''B'',
      Transform ''s_2'' ''split'', Transform ''s_2'' ''rfactor'', Lower ''s_2'',
      Transform ''s_2'' ''split'',
      Transform ''s_2'' ''bind'', Transform ''s_2'' ''bind'', Transform ''s_2'' ''bind'',
      Transform ''s_2'' ''compute_at'', Transform ''s_2'' ''set_store_predicate'',
      Build ''s_2'' ''fcuda'',
      Run ''fcuda'', Check ''fcuda'',
      Declare ''Input'', Declare ''Filter'', Declare ''Output'',
      CreateSchedule ''s_3'' ''Output'', Lower ''s_3'',
      Declare ''A'', Declare ''B'']"

subsection \<open>External tensor functions\<close>

definition extern_functions :: "step list" where
  "extern_functions =
     [Declare ''A'', Declare ''B'', Declare ''C'', Declare ''D'',
      CreateSchedule ''s_1'' ''D'',
      Build ''s_1'' ''f_1'', Run ''f_1'', Check ''f_1'',
      Declare ''C'', Declare ''D'',
      CreateSchedule ''s_2'' ''D'',
      Declare ''A'', Declare ''B'',
      CreateSchedule ''s_3'' ''B'',
      Build ''s_3'' ''f_2'', Run ''f_2'', Check ''f_2'']"

subsection \<open>Intrinsics and math functions\<close>

definition intrin_math :: "step list" where
  "intrin_math =
     [Declare ''A'', Declare ''B'',
      CreateSchedule ''s_1'' ''B'',
      Transform ''s_1'' ''split'', Transform ''s_1'' ''bind'', Transform ''s_1'' ''bind'',
      Build ''s_1'' ''f'',
      Declare ''A'', Declare ''B'',
      CreateSchedule ''s_2'' ''B'',
      Transform ''s_2'' ''split'', Transform ''s_2'' ''bind'', Transform ''s_2'' ''bind'',
      Build ''s_2'' ''fcuda'',
      Build ''s_2'' ''fopencl'',
      Build ''s_2'' ''fcuda'',
      Declare ''A'', Declare ''B'',
      CreateSchedule ''s_3'' ''B'',
      Transform ''s_3'' ''split'', Transform ''s_3'' ''bind'', Transform ''s_3'' ''bind'',
      Build ''s_3'' ''fcuda'']"

subsection \<open>Matrix multiplication with TensorCore code generation\<close>

text \<open>
  \<open>test_gemm\<close> declares the computation and schedules it; it leaves the process for a
  layout it does not know. \<open>storage_align\<close> is applied to one of the two shared stages,
  depending on the layout. \<open>tune_and_evaluate\<close> calls it, lowers, builds, runs and
  checks, and runs the kernel again to time it. The calls the tuner makes inside the
  framework are not calls of the notebook.
\<close>

definition supported_layout :: "string \<Rightarrow> bool" where
  "supported_layout layout \<longleftrightarrow>
     layout = ''NN'' \<or> layout = ''NT'' \<or> layout = ''TN'' \<or> layout = ''TT''"

definition cache_stage :: "string \<Rightarrow> step list" where
  "cache_stage s =
     [Transform s ''compute_at'',
      Transform s ''split'', Transform s ''split'', Transform s ''split'',
      Transform s ''fuse'', Transform s ''split'',
      Transform s ''bind'', Transform s ''bind'', Transform s ''bind'',
      Transform s ''vectorize'']"

definition test_gemm :: "string \<Rightarrow> step list" where
  "test_gemm layout =
     (if supported_layout layout then
        [Declare ''A'', Declare ''B'', Declare ''C'',
         CreateSchedule ''s'' ''C'',
         Transform ''s'' ''cache_read'']
        @ (if layout = ''NN'' \<or> layout = ''TN'' then [Transform ''s'' ''storage_align''] else [])
        @ [Transform ''s'' ''cache_read'', Transform ''s'' ''cache_read'']
        @ (if layout = ''TT'' \<or> layout = ''NT'' then [Transform ''s'' ''storage_align''] else [])
        @ [Transform ''s'' ''cache_read'', Transform ''s'' ''cache_write'',
           Transform ''s'' ''split'', Transform ''s'' ''split'',
           Transform ''s'' ''split'', Transform ''s'' ''split'', Transform ''s'' ''split'',
           Transform ''s'' ''reorder'',
           Transform ''s'' ''bind'', Transform ''s'' ''bind'', Transform ''s'' ''bind'',
           Transform ''s'' ''bind'', Transform ''s'' ''bind'',
           Transform ''s'' ''split'', Transform ''s'' ''split'',
           Transform ''s'' ''compute_at'', Transform ''s'' ''reorder'']
        @ cache_stage ''s'' @ cache_stage ''s''
        @ [Transform ''s'' ''compute_at'', Transform ''s'' ''compute_at'',
           Transform ''s'' ''pragma'']
      else [])"

definition tune_and_evaluate :: "string \<Rightarrow> step list" where
  "tune_and_evaluate layout =
     (if supported_layout layout then
        test_gemm layout
        @ [Lower ''s'', Build ''s'' ''func'', Run ''func'', Check ''func'', Run ''func'']
      else [])"

subsection \<open>The order of a pipeline\<close>

text \<open>
  The order declare, schedule, build, run, check, as properties of a sequence of calls.
  \<open>has_prerequisite seen c\<close>: the call \<open>c\<close> finds what it works on among the earlier
  calls \<open>seen\<close>: a schedule is created for a declared tensor, transformed, lowered and built
  after it is created; a kernel is run (or loaded from) after it is built or loaded; an
  output is checked after the kernel has run.
\<close>

fun creates :: "string \<Rightarrow> step \<Rightarrow> bool" where
  "creates s (CreateSchedule s' t) = (s' = s)"
| "creates s c = False"

fun provides :: "string \<Rightarrow> step \<Rightarrow> bool" where
  "provides f (Build s f') = (f' = f)"
| "provides f (Load f' g) = (f' = f)"
| "provides f c = False"

fun transforms :: "string \<Rightarrow> step \<Rightarrow> bool" where
  "transforms s (Transform s' p) = (s' = s)"
| "transforms s c = False"

fun some_step :: "(step \<Rightarrow> bool) \<Rightarrow> step list \<Rightarrow> bool" where
  "some_step P [] = False"
| "some_step P (c # cs) = (P c \<or> some_step P cs)"

fun has_prerequisite :: "step list \<Rightarrow> step \<Rightarrow> bool" where
  "has_prerequisite seen (Declare t) = True"
| "has_prerequisite seen (CreateSchedule s t) = some_step (\<lambda>c. c = Declare t) seen"
| "has_prerequisite seen (Transform s p) = some_step (creates s) seen"
| "has_prerequisite seen (Lower s) = some_step (creates s) seen"
| "has_prerequisite seen (Build s f) = some_step (creates s) seen"
| "has_prerequisite seen (Load g f) = some_step (provides f) seen"
| "has_prerequisite seen (Run f) = some_step (provides f) seen"
| "has_prerequisite seen (Check f) = some_step (\<lambda>c. c = Run f) seen"

fun in_order :: "step list \<Rightarrow> step list \<Rightarrow> bool" where
  "in_order seen [] = True"
| "in_order seen (c # rest) = (has_prerequisite seen c \<and> in_order (seen @ [c]) rest)"

text \<open>No schedule is transformed after it has been built.\<close>

fun built_schedule_untouched :: "step list \<Rightarrow> step \<Rightarrow> bool" where
  "built_schedule_untouched rest (Build s f) = (\<not> some_step (transforms s) rest)"
| "built_schedule_untouched rest c = True"

fun no_transform_after_build :: "step list \<Rightarrow> bool" where
  "no_transform_after_build [] = True"
| "no_transform_after_build (c # rest) =
     (built_schedule_untouched rest c \<and> no_transform_after_build rest)"

definition pipeline_in_order :: "step list \<Rightarrow> bool" where
  "pipeline_in_order calls \<longleftrightarrow> in_order [] calls \<and> no_transform_after_build calls"

text \<open>
  \<open>in_sequence es calls\<close>: the calls \<open>es\<close> are all made, one after the other in this
  order (other calls may come between them).
\<close>

fun in_sequence :: "step list \<Rightarrow> step list \<Rightarrow> bool" where
  "in_sequence [] calls = True"
| "in_sequence (e # es) [] = False"
| "in_sequence (e # es) (c # calls) =
     (if c = e then in_sequence es calls else in_sequence (e # es) calls)"

section \<open>Loop rules\<close>

lemma for_loop_rule:
  assumes "P 0 s" and "\<And>i t. i < n \<Longrightarrow> P i t \<Longrightarrow> P (Suc i) (body i t)"
  shows "P n (for_loop n body s)"
proof -
  have "k \<le> n \<Longrightarrow> P k (for_loop k body s)" for k
  proof (induction k)
    case 0
    show ?case by (simp add: assms(1))
  next
    case (Suc k)
    then show ?case by (simp add: assms(2))
  qed
  then show ?thesis by simp
qed

lemma for_loop_skip: "for_loop e (\<lambda>k D. D) D = D"
  by (induction e) simp_all

text \<open>One tile: the inner loop of a split axis stores the elements of its tile.\<close>

lemma for_loop_tile:
  assumes body: "\<And>bi E. bi < t \<Longrightarrow> length E = length D \<Longrightarrow>
      body bi E = (if bo * T + bi < n then E[bo * T + bi := F (bo * T + bi)] else E)"
  shows "length (for_loop t body D) = length D
       \<and> (\<forall>j < length D. for_loop t body D ! j =
             (if bo * T \<le> j \<and> j < bo * T + t \<and> j < n then F j else D ! j))"
proof (rule for_loop_rule [where P = "\<lambda>k E. length E = length D \<and>
      (\<forall>j < length D. E ! j = (if bo * T \<le> j \<and> j < bo * T + k \<and> j < n then F j else D ! j))"])
  show "length D = length D \<and>
      (\<forall>j < length D. D ! j = (if bo * T \<le> j \<and> j < bo * T + 0 \<and> j < n then F j else D ! j))"
    by auto
next
  fix i E
  assume i: "i < t" and inv: "length E = length D \<and>
      (\<forall>j < length D. E ! j = (if bo * T \<le> j \<and> j < bo * T + i \<and> j < n then F j else D ! j))"
  from inv have len: "length E = length D" by simp
  note step = body [OF i len]
  show "length (body i E) = length D \<and>
      (\<forall>j < length D. body i E ! j =
         (if bo * T \<le> j \<and> j < bo * T + Suc i \<and> j < n then F j else D ! j))"
  proof (intro conjI allI impI)
    show "length (body i E) = length D"
      unfolding step using len by simp
  next
    fix j assume j: "j < length D"
    from inv j have Ej: "E ! j = (if bo * T \<le> j \<and> j < bo * T + i \<and> j < n then F j else D ! j)"
      by simp
    show "body i E ! j = (if bo * T \<le> j \<and> j < bo * T + Suc i \<and> j < n then F j else D ! j)"
    proof (cases "j = bo * T + i")
      case True
      then show ?thesis
        unfolding step using j len Ej by simp
    next
      case False
      then have "body i E ! j = E ! j"
        unfolding step by simp
      moreover have "(j < bo * T + Suc i) = (j < bo * T + i)"
        using False by arith
      ultimately show ?thesis
        using Ej by simp
    qed
  qed
qed

text \<open>All tiles: an axis of extent \<open>n\<close> split by the factor \<open>T\<close>, the store guarded.\<close>

lemma for_loop_tiles:
  assumes body: "\<And>bo bi E. bi < T \<Longrightarrow> length E = length D \<Longrightarrow>
      body bo bi E = (if bo * T + bi < n then E[bo * T + bi := F (bo * T + bi)] else E)"
  shows "length (for_loop k (\<lambda>bo E. for_loop T (body bo) E) D) = length D
   \<and> (\<forall>j < length D. for_loop k (\<lambda>bo E. for_loop T (body bo) E) D ! j =
             (if j < k * T \<and> j < n then F j else D ! j))"
proof (rule for_loop_rule [where P = "\<lambda>k E. length E = length D \<and>
      (\<forall>j < length D. E ! j = (if j < k * T \<and> j < n then F j else D ! j))"])
  show "length D = length D \<and>
      (\<forall>j < length D. D ! j = (if j < 0 * T \<and> j < n then F j else D ! j))"
    by simp
next
  fix i E
  assume inv: "length E = length D \<and>
      (\<forall>j < length D. E ! j = (if j < i * T \<and> j < n then F j else D ! j))"
  from inv have len: "length E = length D" by simp
  have tile: "length (for_loop T (body i) E) = length E
       \<and> (\<forall>j < length E. for_loop T (body i) E ! j =
             (if i * T \<le> j \<and> j < i * T + T \<and> j < n then F j else E ! j))"
    by (rule for_loop_tile) (simp add: body len)
  show "length (for_loop T (body i) E) = length D \<and>
      (\<forall>j < length D. for_loop T (body i) E ! j =
         (if j < Suc i * T \<and> j < n then F j else D ! j))"
    using tile inv by auto
qed

lemma split_extent_covers: "0 < T \<Longrightarrow> (n::nat) \<le> (n + (T - 1)) div T * T"
proof -
  assume T: "0 < T"
  have "n + (T - 1) < Suc ((n + (T - 1)) div T) * T"
    using dividend_less_div_times [OF T, of "n + (T - 1)"] by (simp add: add.commute)
  then show ?thesis using T by simp
qed

lemma for_loop_split:
  assumes body: "\<And>bo bi E. bi < T \<Longrightarrow> length E = length D \<Longrightarrow>
      body bo bi E = (if bo * T + bi < n then E[bo * T + bi := F (bo * T + bi)] else E)"
    and n: "n \<le> length D" and k: "n \<le> k * T"
  shows "for_loop k (\<lambda>bo E. for_loop T (body bo) E) D = map F [0..<n] @ drop n D"
proof (rule nth_equalityI)
  note tiles = for_loop_tiles [of T D body n F k, OF body]
  show "length (for_loop k (\<lambda>bo E. for_loop T (body bo) E) D) = length (map F [0..<n] @ drop n D)"
    using tiles n by simp
  fix j assume "j < length (for_loop k (\<lambda>bo E. for_loop T (body bo) E) D)"
  then have j: "j < length D"
    using tiles by simp
  show "for_loop k (\<lambda>bo E. for_loop T (body bo) E) D ! j = (map F [0..<n] @ drop n D) ! j"
  proof (cases "j < n")
    case True
    then show ?thesis
      using tiles j k by (simp add: nth_append)
  next
    case False
    then show ?thesis
      using tiles j n by (simp add: nth_append)
  qed
qed

lemma for_loop_accumulate:
  fixes f :: "nat \<Rightarrow> 'a::comm_monoid_add"
  assumes "c < length D"
  shows "for_loop e (\<lambda>k D. if g k then D[c := D ! c + f k] else D) D
           = D[c := D ! c + (\<Sum>k<e. if g k then f k else 0)]"
proof (induction e)
  case 0
  show ?case by simp
next
  case (Suc e)
  show ?case
    using assms by (simp add: Suc add.assoc)
qed

lemma for_loop_reduce:
  fixes f :: "nat \<Rightarrow> 'a::comm_monoid_add"
  assumes "c < length D"
  shows "for_loop e (\<lambda>k D. if g k then D[c := D ! c + f k] else D) (D[c := 0])
           = D[c := (\<Sum>k<e. if g k then f k else 0)]"
  using for_loop_accumulate [of c "D[c := 0]" e g f] assms by simp

lemma for_loop_assign:
  assumes "n \<le> length D"
    and "\<And>i E. i < n \<Longrightarrow> length E = length D \<Longrightarrow> body i E = E[i := F i]"
  shows "for_loop n body D = map F [0..<n] @ drop n D"
proof (rule for_loop_rule [where P = "\<lambda>k E. E = map F [0..<k] @ drop k D"])
  show "D = map F [0..<0] @ drop 0 D" by simp
next
  fix i E
  assume i: "i < n" and E: "E = map F [0..<i] @ drop i D"
  have len: "length E = length D"
    using i assms(1) by (simp add: E)
  have "body i E = E[i := F i]"
    using i len by (rule assms(2))
  also have "\<dots> = map F [0..<i] @ (drop i D)[0 := F i]"
    by (simp add: E list_update_append)
  also have "drop i D = D ! i # drop (Suc i) D"
    using i assms(1) by (simp add: Cons_nth_drop_Suc)
  finally show "body i E = map F [0..<Suc i] @ drop (Suc i) D"
    by simp
qed


section \<open>The kernels computed\<close>

lemma c_div_nonneg: "0 \<le> a \<Longrightarrow> 0 < b \<Longrightarrow> c_div a b = a div b"
  by (cases "a = 0") (simp_all add: c_div_def)

lemma vadd_default_eq:
  assumes "length C = n"
  shows "vadd_default n A B C = map (\<lambda>i. A ! i + B ! i) [0..<n]"
proof -
  have "vadd_default n A B C = map (\<lambda>i. A ! i + B ! i) [0..<n] @ drop n C"
    unfolding vadd_default_def by (rule for_loop_assign) (simp_all add: assms)
  then show ?thesis using assms by simp
qed

lemma vadd_split_eq:
  assumes "length C = n"
  shows "vadd_split n A B C = map (\<lambda>i. A ! i + B ! i) [0..<n]"
proof -
  have "for_loop ((n + 63) div 64) (\<lambda>bx C.
       for_loop 64 (\<lambda>tx C.
         let i = bx * 64 + tx
         in if i < n then C[i := A ! i + B ! i] else C) C) C
          = map (\<lambda>i. A ! i + B ! i) [0..<n] @ drop n C"
  proof (rule for_loop_split)
    show "n \<le> length C" using assms by simp
    show "n \<le> (n + 63) div 64 * 64"
      using split_extent_covers [of 64 n] by simp
  qed (simp add: Let_def)
  then show ?thesis
    unfolding vadd_split_def using assms by simp
qed

lemma myadd_kernel0_eq:
  assumes "tx < 64"
  shows "myadd_kernel0 C A B (int n) (int bx) (int tx) =
           (if bx * 64 + tx < n then C[bx * 64 + tx := A ! (bx * 64 + tx) + B ! (bx * 64 + tx)] else C)"
proof -
  have idx: "nat (int bx * 64 + int tx) = bx * 64 + tx"
    by (simp add: nat_add_distrib nat_mult_distrib)
  have d: "c_div (int n) 64 = int (n div 64)"
    by (simp add: c_div_nonneg zdiv_int)
  have a: "bx * 64 + tx < n" if "bx < n div 64"
  proof -
    from that have "Suc bx * 64 \<le> n div 64 * 64"
      by (simp only: Suc_le_eq [symmetric] mult_le_mono1)
    also have "\<dots> \<le> n"
      by simp
    finally show ?thesis
      using assms by simp
  qed
  have b: "(int bx * 64 < int n - int tx) = (bx * 64 + tx < n)"
    by linarith
  show ?thesis
    unfolding myadd_kernel0_def idx d b using a by auto
qed

lemma myadd_launch_eq:
  assumes "length C = n"
  shows "myadd_launch (int n) A B C = map (\<lambda>i. A ! i + B ! i) [0..<n]"
proof -
  have d: "nat (c_div (int n + 63) 64) = (n + 63) div 64"
    by (simp add: c_div_nonneg)
  have "for_loop ((n + 63) div 64) (\<lambda>bx C.
       for_loop 64 (\<lambda>tx C. myadd_kernel0 C A B (int n) (int bx) (int tx)) C) C
          = map (\<lambda>i. A ! i + B ! i) [0..<n] @ drop n C"
  proof (rule for_loop_split)
    show "n \<le> length C" using assms by simp
    show "n \<le> (n + 63) div 64 * 64"
      using split_extent_covers [of 64 n] by simp
  qed (simp add: myadd_kernel0_eq)
  then show ?thesis
    unfolding myadd_launch_def d using assms by simp
qed

text \<open>The threads of the grid store to different elements: their order does not matter.\<close>

lemma myadd_kernel0_commute:
  assumes "tx < 64" and "tx' < 64"
  shows "myadd_kernel0 (myadd_kernel0 C A B (int n) (int bx) (int tx)) A B (int n) (int bx') (int tx')
       = myadd_kernel0 (myadd_kernel0 C A B (int n) (int bx') (int tx')) A B (int n) (int bx) (int tx)"
  unfolding myadd_kernel0_eq [OF assms(1)] myadd_kernel0_eq [OF assms(2)]
  by (cases "bx * 64 + tx = bx' * 64 + tx'") (simp_all add: list_update_swap)

lemma map2_plus_nth:
  assumes "length A = n" and "length B = n"
  shows "map (\<lambda>i. A ! i + B ! i) [0..<n] = map2 (+) A B"
  using assms by (intro nth_equalityI) simp_all

lemma produce_B_split_cell:
  fixes A :: "'a::comm_monoid_add list"
  assumes c: "c < length E"
  shows "for_loop K (\<lambda>k_outer B.
           for_loop 16 (\<lambda>k_inner B.
               if int k_outer * 16 < int m - int k_inner then
                 B[c := B ! c + A ! ((c * m + k_outer * 16) + k_inner)]
               else B) B) (E[c := 0])
         = E[c := (\<Sum>ko<K. \<Sum>ki<16. if ko * 16 + ki < m then A ! (c * m + (ko * 16 + ki)) else 0)]"
proof -
  have g: "(int ko * 16 < int m - int ki) = (ko * 16 + ki < m)" for ko ki
    by linarith
  have inner: "for_loop 16 (\<lambda>k_inner B.
               if int ko * 16 < int m - int k_inner then
                 B[c := B ! c + A ! ((c * m + ko * 16) + k_inner)]
               else B) D
        = D[c := D ! c + (\<Sum>ki<16. if ko * 16 + ki < m then A ! (c * m + (ko * 16 + ki)) else 0)]"
    if "c < length D" for ko and D :: "'a list"
    unfolding g add.assoc by (rule for_loop_accumulate [OF that])
  have "for_loop K (\<lambda>k_outer B.
           for_loop 16 (\<lambda>k_inner B.
               if int k_outer * 16 < int m - int k_inner then
                 B[c := B ! c + A ! ((c * m + k_outer * 16) + k_inner)]
               else B) B) D
         = D[c := D ! c + (\<Sum>ko<K. \<Sum>ki<16. if ko * 16 + ki < m then A ! (c * m + (ko * 16 + ki)) else 0)]"
    if "c < length D" for D :: "'a list"
    using that
  proof (induction K)
    case 0
    show ?case by simp
  next
    case (Suc K)
    then show ?case
      by (simp add: inner add.assoc)
  qed
  from this [of "E[c := 0]"] c show ?thesis by simp
qed

lemma produce_B_default_eq:
  fixes A :: "'a::comm_monoid_add list"
  assumes "length B = n"
  shows "produce_B_default n m A B = map (\<lambda>i. \<Sum>k<m. A ! (i * m + k)) [0..<n]"
proof -
  have "produce_B_default n m A B = map (\<lambda>i. \<Sum>k<m. A ! (i * m + k)) [0..<n] @ drop n B"
    unfolding produce_B_default_def
  proof (rule for_loop_assign)
    show "n \<le> length B" using assms by simp
  next
    fix i and E :: "'a list"
    assume "i < n" and "length E = length B"
    then have i: "i < length E" using assms by simp
    show "for_loop m (\<lambda>k B. B[i := B ! i + A ! (i * m + k)]) (E[i := 0])
            = E[i := \<Sum>k<m. A ! (i * m + k)]"
      using for_loop_reduce [OF i, of m "\<lambda>k. True" "\<lambda>k. A ! (i * m + k)"] by simp
  qed
  then show ?thesis using assms by simp
qed

lemma for_loop_scatter:
  assumes idx: "\<And>i. i < n \<Longrightarrow> idx i < length D"
    and inj: "inj_on idx {..<n}"
    and body: "\<And>i E. i < n \<Longrightarrow> length E = length D \<Longrightarrow> body i E = E[idx i := F i]"
  shows "length (for_loop n body D) = length D
         \<and> (\<forall>i<n. for_loop n body D ! idx i = F i)
         \<and> (\<forall>j. j \<notin> idx ` {..<n} \<longrightarrow> for_loop n body D ! j = D ! j)"
proof (rule for_loop_rule [where P = "\<lambda>k E. length E = length D
         \<and> (\<forall>i<k. E ! idx i = F i) \<and> (\<forall>j. j \<notin> idx ` {..<k} \<longrightarrow> E ! j = D ! j)"])
  show "length D = length D \<and> (\<forall>i<0. D ! idx i = F i)
          \<and> (\<forall>j. j \<notin> idx ` {..<0} \<longrightarrow> D ! j = D ! j)"
    by simp
next
  fix i E
  assume i: "i < n"
    and inv: "length E = length D \<and> (\<forall>i'<i. E ! idx i' = F i')
          \<and> (\<forall>j. j \<notin> idx ` {..<i} \<longrightarrow> E ! j = D ! j)"
  from inv have len: "length E = length D" by simp
  have step: "body i E = E[idx i := F i]"
    using i len by (rule body)
  have written: "body i E ! idx i' = F i'" if "i' < Suc i" for i'
  proof (cases "i' = i")
    case True
    then show ?thesis
      using idx [OF i] len by (simp add: step)
  next
    case False
    with that have lt: "i' < i" by simp
    then have "idx i' \<noteq> idx i"
      using inj i by (auto simp: inj_on_def)
    then show ?thesis
      using inv lt by (simp add: step)
  qed
  have frame: "body i E ! j = D ! j" if "j \<notin> idx ` {..<Suc i}" for j
  proof -
    from that have "j \<noteq> idx i" and "j \<notin> idx ` {..<i}"
      by (auto simp: lessThan_Suc)
    then show ?thesis
      using inv by (simp add: step)
  qed
  show "length (body i E) = length D \<and> (\<forall>i'<Suc i. body i E ! idx i' = F i')
          \<and> (\<forall>j. j \<notin> idx ` {..<Suc i} \<longrightarrow> body i E ! j = D ! j)"
    using written frame len by (simp add: step)
qed

lemma rf_guard: "(int ki < int m - int ko * 16) = (ko * 16 + ki < m)"
  by linarith

lemma rf_index_bound:
  assumes "ki < (16::nat)" and "i < n"
  shows "ki * n + i < 16 * n"
proof -
  have "ki * n + i < Suc ki * n"
    using assms(2) by simp
  also have "\<dots> \<le> 16 * n"
    using assms(1) by (simp only: mult_le_mono1 Suc_le_eq)
  finally show ?thesis .
qed

lemma rf_index_below:
  assumes "ki' < (ki::nat)" and "i' < n"
  shows "ki' * n + i' < ki * n"
proof -
  have "ki' * n + i' < Suc ki' * n"
    using assms(2) by simp
  also have "\<dots> \<le> ki * n"
    using assms(1) by (simp only: mult_le_mono1 Suc_le_eq)
  finally show ?thesis .
qed

lemma produce_B_rf_row:
  fixes A :: "'a::comm_monoid_add list" and m :: nat
  assumes len: "length E = 16 * n" and ki: "ki < 16"
  defines "row \<equiv> for_loop n (\<lambda>i B_rf.
         for_loop ((m + 15) div 16) (\<lambda>k_outer B_rf.
           if int ki < int m - int k_outer * 16
           then B_rf[ki * n + i :=
                  B_rf ! (ki * n + i) + A ! ((ki + i * m) + k_outer * 16)]
           else B_rf) (B_rf[ki * n + i := 0])) E"
  shows "length row = 16 * n
         \<and> (\<forall>i<n. row ! (ki * n + i) = rfactor_partial_sum m A ki i)
         \<and> (\<forall>j. j \<notin> (\<lambda>i. ki * n + i) ` {..<n} \<longrightarrow> row ! j = E ! j)"
  unfolding row_def len [symmetric]
proof (rule for_loop_scatter)
  show "ki * n + i < length E" if "i < n" for i
    using rf_index_bound [OF ki that] len by simp
  show "inj_on (\<lambda>i. ki * n + i) {..<n}"
    by (simp add: inj_on_def)
  fix i and D :: "'a list"
  assume i: "i < n" and D: "length D = length E"
  have c: "ki * n + i < length D"
    using rf_index_bound [OF ki i] len D by simp
  have idx: "(ki + i * m) + ko * 16 = i * m + (ko * 16 + ki)" for ko
    by simp
  show "for_loop ((m + 15) div 16) (\<lambda>k_outer B_rf.
           if int ki < int m - int k_outer * 16
           then B_rf[ki * n + i :=
                  B_rf ! (ki * n + i) + A ! ((ki + i * m) + k_outer * 16)]
           else B_rf) (D[ki * n + i := 0])
        = D[ki * n + i := rfactor_partial_sum m A ki i]"
    unfolding rf_guard idx rfactor_partial_sum_def
    by (rule for_loop_reduce [OF c])
qed

lemma produce_B_rf_nth:
  fixes A :: "'a::comm_monoid_add list"
  assumes len: "length B_rf = 16 * n"
  shows "length (produce_B_rf n m A B_rf) = 16 * n
         \<and> (\<forall>ki<16. \<forall>i<n. produce_B_rf n m A B_rf ! (ki * n + i) = rfactor_partial_sum m A ki i)"
  unfolding produce_B_rf_def
proof (rule for_loop_rule [where P = "\<lambda>k E. length E = 16 * n
         \<and> (\<forall>ki<k. \<forall>i<n. E ! (ki * n + i) = rfactor_partial_sum m A ki i)"])
  show "length B_rf = 16 * n
         \<and> (\<forall>ki<0. \<forall>i<n. B_rf ! (ki * n + i) = rfactor_partial_sum m A ki i)"
    using len by simp
next
  fix ki and E :: "'a list"
  assume ki: "ki < 16"
    and inv: "length E = 16 * n
         \<and> (\<forall>ki'<ki. \<forall>i<n. E ! (ki' * n + i) = rfactor_partial_sum m A ki' i)"
  define row where "row = for_loop n (\<lambda>i B_rf.
         for_loop ((m + 15) div 16) (\<lambda>k_outer B_rf.
           if int ki < int m - int k_outer * 16
           then B_rf[ki * n + i :=
                  B_rf ! (ki * n + i) + A ! ((ki + i * m) + k_outer * 16)]
           else B_rf) (B_rf[ki * n + i := 0])) E"
  from inv have lenE: "length E = 16 * n" by simp
  note r = produce_B_rf_row [OF lenE ki, of m A, folded row_def]
  have "row ! (ki' * n + i) = rfactor_partial_sum m A ki' i" if "ki' < Suc ki" and "i < n" for ki' i
  proof (cases "ki' = ki")
    case True
    then show ?thesis using r that(2) by simp
  next
    case False
    with that have lt: "ki' < ki" by simp
    have "ki' * n + i \<notin> (\<lambda>i. ki * n + i) ` {..<n}"
      using rf_index_below [OF lt that(2)] by auto
    then have "row ! (ki' * n + i) = E ! (ki' * n + i)"
      using r by simp
    then show ?thesis
      using inv lt that(2) by simp
  qed
  then show "length row = 16 * n
         \<and> (\<forall>ki'<Suc ki. \<forall>i<n. row ! (ki' * n + i) = rfactor_partial_sum m A ki' i)"
    using r by simp
qed


lemma rfactor_sum:
  fixes a :: "nat \<Rightarrow> 'a::comm_monoid_add"
  shows "(\<Sum>ki<16. \<Sum>ko<(m + 15) div 16. if ko * 16 + ki < m then a (ko * 16 + ki) else 0)
           = (\<Sum>k<m. a k)"
proof -
  define g where "g j = (if j < m then a j else 0)" for j
  have m: "m \<le> (m + 15) div 16 * 16"
  proof -
    have "m + 15 < Suc ((m + 15) div 16) * 16"
      using dividend_less_div_times [of 16 "m + 15"] by simp
    then show ?thesis by simp
  qed
  have "(\<Sum>ki<16. \<Sum>ko<(m + 15) div 16. if ko * 16 + ki < m then a (ko * 16 + ki) else 0)
          = (\<Sum>ki<16. \<Sum>ko<(m + 15) div 16. g (ko * 16 + ki))"
    by (simp add: g_def)
  also have "\<dots> = (\<Sum>ko<(m + 15) div 16. \<Sum>ki<16. g (ko * 16 + ki))"
    by (rule sum.swap)
  also have "\<dots> = (\<Sum>ko<(m + 15) div 16. sum g {ko * 16 ..< ko * 16 + 16})"
  proof (rule sum.cong [OF refl])
    fix ko
    have "sum g {0 + ko * 16 ..< 16 + ko * 16} = (\<Sum>ki = 0..<16. g (ki + ko * 16))"
      by (rule sum.shift_bounds_nat_ivl)
    then show "(\<Sum>ki<16. g (ko * 16 + ki)) = sum g {ko * 16 ..< ko * 16 + 16}"
      by (simp add: add.commute lessThan_atLeast0)
  qed
  also have "\<dots> = sum g {..<(m + 15) div 16 * 16}"
    by (rule sum.nat_group)
  also have "\<dots> = sum g {..<m}"
    by (rule sum.mono_neutral_right) (use m in \<open>auto simp: g_def\<close>)
  also have "\<dots> = (\<Sum>k<m. a k)"
    by (rule sum.cong) (simp_all add: g_def)
  finally show ?thesis .
qed

lemma produce_B_rfactor_eq:
  fixes B_rf :: "'a::comm_monoid_add list"
  assumes "length B = n"
  shows "produce_B_rfactor n B_rf B = map (\<lambda>ax0. \<Sum>kv<16. B_rf ! (ax0 + kv * n)) [0..<n]"
proof -
  have "produce_B_rfactor n B_rf B
          = map (\<lambda>ax0. \<Sum>kv<16. B_rf ! (ax0 + kv * n)) [0..<n] @ drop n B"
    unfolding produce_B_rfactor_def
  proof (rule for_loop_assign)
    show "n \<le> length B" using assms by simp
  next
    fix i and E :: "'a list"
    assume "i < n" and "length E = length B"
    then have i: "i < length E" using assms by simp
    show "for_loop 16 (\<lambda>k_inner_v B. B[i := B ! i + B_rf ! (i + k_inner_v * n)]) (E[i := 0])
            = E[i := \<Sum>kv<16. B_rf ! (i + kv * n)]"
      using for_loop_reduce [OF i, of 16 "\<lambda>k. True" "\<lambda>kv. B_rf ! (i + kv * n)"] by simp
  qed
  then show ?thesis using assms by simp
qed

lemma rowsum_rfactor_eq:
  fixes A :: "'a::comm_monoid_add list"
  assumes B: "length B = n" and B_rf: "length B_rf = 16 * n"
  shows "rowsum_rfactor n m A B_rf B = map (\<lambda>i. \<Sum>k<m. A ! (i * m + k)) [0..<n]"
proof -
  note rf = produce_B_rf_nth [OF B_rf, of m A]
  have "(\<Sum>kv<16. produce_B_rf n m A B_rf ! (i + kv * n)) = (\<Sum>k<m. A ! (i * m + k))"
    if i: "i < n" for i
  proof -
    have "(\<Sum>kv<16. produce_B_rf n m A B_rf ! (i + kv * n))
            = (\<Sum>kv<16. rfactor_partial_sum m A kv i)"
    proof (rule sum.cong [OF refl])
      fix kv assume "kv \<in> {..<16::nat}"
      then have "kv < 16" by simp
      then show "produce_B_rf n m A B_rf ! (i + kv * n) = rfactor_partial_sum m A kv i"
        using rf i by (simp add: add.commute)
    qed
    also have "\<dots> = (\<Sum>k<m. A ! (i * m + k))"
      unfolding rfactor_partial_sum_def by (rule rfactor_sum)
    finally show ?thesis .
  qed
  then show ?thesis
    unfolding rowsum_rfactor_def produce_B_rfactor_eq [OF B] by simp
qed

lemma split_sum:
  fixes a :: "nat \<Rightarrow> 'a::comm_monoid_add"
  shows "(\<Sum>ko<(m + 15) div 16. \<Sum>ki<16. if ko * 16 + ki < m then a (ko * 16 + ki) else 0)
           = (\<Sum>k<m. a k)"
  using rfactor_sum [of m a] by (simp only: sum.swap [of _ "{..<(m + 15) div 16}"])

lemma produce_B_split_eq:
  fixes A :: "'a::comm_monoid_add list"
  assumes "length B = n"
  shows "produce_B_split n m A B = map (\<lambda>i. \<Sum>k<m. A ! (i * m + k)) [0..<n]"
proof -
  have "produce_B_split n m A B = map (\<lambda>i. \<Sum>k<m. A ! (i * m + k)) [0..<n] @ drop n B"
    unfolding produce_B_split_def
  proof (rule for_loop_split)
    show "n \<le> length B" using assms by simp
    show "n \<le> (n + 31) div 32 * 32"
      using split_extent_covers [of 32 n] by simp
  next
    fix bo bi :: nat and E :: "'a list"
    assume "bi < 32" and len: "length E = length B"
    have g: "(int bo * 32 < int n - int bi) = (bo * 32 + bi < n)"
      by linarith
    show "for_loop ((m + 15) div 16) (\<lambda>k_outer B.
           for_loop 16 (\<lambda>k_inner B.
             if int bo * 32 < int n - int bi then
               if int k_outer * 16 < int m - int k_inner then
                 B[bo * 32 + bi :=
                     B ! (bo * 32 + bi)
                       + A ! ((((bo * 32) + bi) * m + k_outer * 16) + k_inner)]
               else B
             else B) B)
           (if int bo * 32 < int n - int bi
            then E[bo * 32 + bi := 0] else E)
       = (if bo * 32 + bi < n
          then E[bo * 32 + bi := \<Sum>k<m. A ! ((bo * 32 + bi) * m + k)] else E)"
    proof (cases "bo * 32 + bi < n")
      case True
      then have c: "bo * 32 + bi < length E"
        using len assms by simp
      show ?thesis
        unfolding g using True
        by (simp add: produce_B_split_cell [OF c]
            split_sum [of m "\<lambda>k. A ! ((bo * 32 + bi) * m + k)"])
    next
      case False
      then show ?thesis
        unfolding g by (simp add: for_loop_skip)
    qed
  qed
  then show ?thesis using assms by simp
qed

section \<open>Properties of \<open>extract\<close>\<close>

lemma endswith_tgz_gz: "endswith path ''tgz'' \<Longrightarrow> endswith path ''gz''"
proof -
  assume h: "endswith path ''tgz''"
  have l3: "length ''tgz'' = 3" and l2: "length ''gz'' = 2"
    by simp_all
  from h have len: "3 \<le> length path" and d: "drop (length path - 3) path = ''tgz''"
    unfolding endswith_def l3 by simp_all
  have idx: "length path - 2 = 1 + (length path - 3)"
    using len by arith
  have "drop (length path - 2) path = drop 1 (drop (length path - 3) path)"
    unfolding idx drop_drop ..
  also have "\<dots> = ''gz''"
    unfolding d by simp
  finally show ?thesis
    unfolding endswith_def l2 using len by simp
qed

lemma endswith_disj: "(endswith path ''tgz'' \<or> endswith path ''gz'') = endswith path ''gz''"
  using endswith_tgz_gz by blast

text \<open>
  Claim C8. For every path, \<open>extract\<close> raises \<open>RuntimeError\<close> exactly when the path
  does not end with \<open>gz\<close>; the error carries the message built from the path. The test
  for the suffix \<open>tgz\<close> is redundant: a string that ends with \<open>tgz\<close> ends with
  \<open>gz\<close>, so the suffix \<open>gz\<close> alone decides between the two branches.
\<close>

theorem extract_raises_iff_not_gz:
  "((\<exists>msg. extract_file os_path_dirname path = Inl (RuntimeError msg)) \<longleftrightarrow> \<not> endswith path ''gz'')
   \<and> ((\<exists>e. extract_file os_path_dirname path = Inl e) \<longleftrightarrow> \<not> endswith path ''gz'')
   \<and> (\<not> endswith path ''gz'' \<longrightarrow>
        extract_file os_path_dirname path = Inl (RuntimeError (''Could not decompress the file: '' @ path)))
   \<and> (endswith path ''gz'' \<longrightarrow>
        extract_file os_path_dirname path = Inr \<lparr>archive = path, extract_to = os_path_dirname path\<rparr>)
   \<and> (endswith path ''tgz'' \<longrightarrow> endswith path ''gz'')
   \<and> ((endswith path ''tgz'' \<or> endswith path ''gz'') \<longleftrightarrow> endswith path ''gz'')"
  using endswith_tgz_gz [of path] by (auto simp: extract_file_def Let_def)

theorem extract_raises_iff_not_gz_witness:
  "endswith ''mobilenet_v1_1.0_224.tgz'' ''tgz''
   \<and> endswith ''mobilenet_v1_1.0_224.tgz'' ''gz''
   \<and> extract_file (\<lambda>p. ''.'') ''mobilenet_v1_1.0_224.tgz''
       = Inr \<lparr>archive = ''mobilenet_v1_1.0_224.tgz'', extract_to = ''.''\<rparr>
   \<and> \<not> endswith ''cat.png'' ''gz''
   \<and> extract_file (\<lambda>p. ''.'') ''cat.png''
       = Inl (RuntimeError ''Could not decompress the file: cat.png'')"
  using extract_raises_iff_not_gz [of "\<lambda>p. ''.''" "''mobilenet_v1_1.0_224.tgz''"]
    extract_raises_iff_not_gz [of "\<lambda>p. ''.''" "''cat.png''"]
  by (simp add: endswith_def)

section \<open>Properties of the lowering rules\<close>

text \<open>
  Claim C9. On an intrinsic call whose dtype is neither \<open>float32\<close> nor \<open>float64\<close>,
  both \<open>my_cuda_math_rule\<close> and \<open>my_cuda_mylog_rule\<close> return the call itself: no
  error, and the same dtype, name, arguments and call type.
\<close>

theorem lowering_rules_identity_on_other_dtypes:
  "dt \<noteq> ''float32'' \<Longrightarrow> dt \<noteq> ''float64'' \<Longrightarrow>
     my_cuda_math_rule (Call dt nm as ct) = Inr (Call dt nm as ct)
     \<and> my_cuda_mylog_rule (Call dt nm as ct) = Inr (Call dt nm as ct)"
  by simp

theorem lowering_rules_identity_on_other_dtypes_witness:
  "my_cuda_math_rule (Call ''int32'' ''exp'' [Other ''int32''] PureIntrinsic)
     = Inr (Call ''int32'' ''exp'' [Other ''int32''] PureIntrinsic)
   \<and> my_cuda_mylog_rule (Call ''float16'' ''mylog'' [] PureIntrinsic)
     = Inr (Call ''float16'' ''mylog'' [] PureIntrinsic)"
  using lowering_rules_identity_on_other_dtypes
      [of "''int32''" "''exp''" "[Other ''int32'']" PureIntrinsic]
    lowering_rules_identity_on_other_dtypes [of "''float16''" "''mylog''" "[]" PureIntrinsic]
  by simp

section \<open>Properties of \<open>alter_conv2d\<close>\<close>

text \<open>
  Claim C10. \<open>alter_conv2d\<close> returns a conv2d call on the same data and weight, whose
  attributes are the incoming ones except that \<open>data_layout\<close> is \<open>NCHW16c\<close>: every
  other attribute has the value it had, and no attribute but \<open>data_layout\<close> is added.
\<close>

theorem alter_conv2d_frame:
  "\<exists>new_attrs.
     alter_conv2d attrs [data, weight] tinfos = Inr (Conv2d data weight new_attrs)
     \<and> new_attrs ''data_layout'' = Some (AStr ''NCHW16c'')
     \<and> (\<forall>k. k \<noteq> ''data_layout'' \<longrightarrow> new_attrs k = attrs k)
     \<and> dom new_attrs = insert ''data_layout'' (dom attrs)"
  by (simp add: alter_conv2d_def)

theorem alter_conv2d_frame_witness:
  "\<exists>new_attrs.
     alter_conv2d
       [''data_layout'' \<mapsto> AStr ''NCHW'', ''kernel_layout'' \<mapsto> AStr ''OIHW'',
        ''channels'' \<mapsto> AInt 64, ''kernel_size'' \<mapsto> AInts [3, 3]]
       [''x'', ''weight''] ()
       = Inr (Conv2d ''x'' ''weight'' new_attrs)
     \<and> new_attrs ''data_layout'' = Some (AStr ''NCHW16c'')
     \<and> new_attrs ''kernel_layout'' = Some (AStr ''OIHW'')
     \<and> new_attrs ''channels'' = Some (AInt 64)
     \<and> new_attrs ''kernel_size'' = Some (AInts [3, 3])
     \<and> new_attrs ''groups'' = None"
  using alter_conv2d_frame
    [of "[''data_layout'' \<mapsto> AStr ''NCHW'', ''kernel_layout'' \<mapsto> AStr ''OIHW'',
          ''channels'' \<mapsto> AInt 64, ''kernel_size'' \<mapsto> AInts [3, 3]]"
        "''x''" "''weight''" "()"]
  by (simp add: alter_conv2d_def)

section \<open>The printed loop nests keep the result\<close>

text \<open>
  The loop nests the notebooks print give the result of the unscheduled declaration.
  For the row sum of an \<open>n\<close> by \<open>m\<close> input: after the rfactor rewrite the factored stage
  holds, for every \<open>ki < 16\<close> and row \<open>i\<close>, the sum of \<open>A(i, ko*16 + ki)\<close> over the
  \<open>ko\<close> with \<open>ko*16 + ki < m\<close>; the final stage sums these over \<open>ki\<close>; and the result
  is that of the default schedule, the sum of \<open>A(i, k)\<close> over \<open>k < m\<close> for every row.
  The schedule with the reduction axis split by 16 and the row axis split by 32 gives
  the same. For the vector addition: the loop nest split by 64 and guarded by \<open>i < n\<close>,
  and the kernel with both axes bound to threads, give the result of the default
  schedule, \<open>C[i] = A[i] + B[i]\<close> for every \<open>i < n\<close>. Extents and indices are
  mathematical numbers here, of any size. The kernel of the reduction notebook that
  combines the partial sums across threads is not among these nests.
\<close>

theorem schedules_preserve_result:
  fixes A :: "'a::comm_monoid_add list" and X :: "'b::plus list"
  assumes "length A = n * m" and "length B = n" and "length B_rf = 16 * n"
    and "length X = l" and "length Y = l" and "length Z = l"
  shows "(\<forall>ki<16. \<forall>i<n. produce_B_rf n m A B_rf ! (ki * n + i) = rfactor_partial_sum m A ki i)
       \<and> (\<forall>i<n. rowsum_rfactor n m A B_rf B ! i = (\<Sum>ki<16. rfactor_partial_sum m A ki i))
       \<and> rowsum_rfactor n m A B_rf B = produce_B_default n m A B
       \<and> produce_B_split n m A B = produce_B_default n m A B
       \<and> produce_B_default n m A B = map (\<lambda>i. \<Sum>k<m. A ! (i * m + k)) [0..<n]
       \<and> vadd_split l X Y Z = vadd_default l X Y Z
       \<and> myadd_launch (int l) X Y Z = vadd_default l X Y Z
       \<and> vadd_default l X Y Z = map2 (+) X Y"
proof -
  have rf: "\<forall>ki<16. \<forall>i<n. produce_B_rf n m A B_rf ! (ki * n + i) = rfactor_partial_sum m A ki i"
    using produce_B_rf_nth [OF assms(3), of m A] by simp
  have total: "(\<Sum>ki<16. rfactor_partial_sum m A ki i) = (\<Sum>k<m. A ! (i * m + k))" for i
    unfolding rfactor_partial_sum_def by (rule rfactor_sum)
  have r: "rowsum_rfactor n m A B_rf B = map (\<lambda>i. \<Sum>k<m. A ! (i * m + k)) [0..<n]"
    by (rule rowsum_rfactor_eq [OF assms(2,3)])
  have d: "produce_B_default n m A B = map (\<lambda>i. \<Sum>k<m. A ! (i * m + k)) [0..<n]"
    by (rule produce_B_default_eq [OF assms(2)])
  have s: "produce_B_split n m A B = map (\<lambda>i. \<Sum>k<m. A ! (i * m + k)) [0..<n]"
    by (rule produce_B_split_eq [OF assms(2)])
  have v: "vadd_default l X Y Z = map2 (+) X Y"
    unfolding vadd_default_eq [OF assms(6)] by (rule map2_plus_nth [OF assms(4,5)])
  have vs: "vadd_split l X Y Z = map2 (+) X Y"
    unfolding vadd_split_eq [OF assms(6)] by (rule map2_plus_nth [OF assms(4,5)])
  have vk: "myadd_launch (int l) X Y Z = map2 (+) X Y"
    unfolding myadd_launch_eq [OF assms(6)] by (rule map2_plus_nth [OF assms(4,5)])
  show ?thesis
    using rf by (simp add: r d s v vs vk total)
qed

theorem schedules_preserve_result_witness:
  "rowsum_rfactor 2 3 [1, 2, 3, 4, 5, 6 :: int] (replicate 32 7) [0, 0] = [6, 15]
   \<and> produce_B_default 2 3 [1, 2, 3, 4, 5, 6 :: int] [0, 0] = [6, 15]
   \<and> produce_B_split 2 3 [1, 2, 3, 4, 5, 6 :: int] [0, 0] = [6, 15]
   \<and> produce_B_rf 2 3 [1, 2, 3, 4, 5, 6 :: int] (replicate 32 7) ! (1 * 2 + 1) = 5
   \<and> vadd_split 3 [1, 2, 3 :: int] [10, 20, 30] [0, 0, 0] = [11, 22, 33]
   \<and> myadd_launch 3 [1, 2, 3 :: int] [10, 20, 30] [0, 0, 0] = [11, 22, 33]
   \<and> vadd_default 3 [1, 2, 3 :: int] [10, 20, 30] [0, 0, 0] = [11, 22, 33]"
proof -
  note t = schedules_preserve_result
    [of "[1, 2, 3, 4, 5, 6 :: int]" 2 3 "[0, 0]" "replicate 32 7"
        "[1, 2, 3 :: int]" 3 "[10, 20, 30]" "[0, 0, 0]"]
  have hyps: "length [1, 2, 3, 4, 5, 6 :: int] = 2 * 3" "length [0, 0 :: int] = 2"
    "length (replicate 32 (7::int)) = 16 * 2"
    "length [1, 2, 3 :: int] = 3" "length [10, 20, 30 :: int] = 3" "length [0, 0, 0 :: int] = 3"
    by simp_all
  note c = t [OF hyps]
  have d: "map (\<lambda>i. \<Sum>k<3. [1, 2, 3, 4, 5, 6 :: int] ! (i * 3 + k)) [0..<2] = [6, 15]"
    by (simp add: upt_rec numeral_eq_Suc)
  have p: "rfactor_partial_sum 3 [1, 2, 3, 4, 5, 6 :: int] 1 1 = 5"
    by (simp add: rfactor_partial_sum_def)
  from c have cells: "\<forall>ki<16. \<forall>i<2.
      produce_B_rf 2 3 [1, 2, 3, 4, 5, 6 :: int] (replicate 32 7) ! (ki * 2 + i)
        = rfactor_partial_sum 3 [1, 2, 3, 4, 5, 6 :: int] ki i"
    by (rule conjunct1)
  have rf: "produce_B_rf 2 3 [1, 2, 3, 4, 5, 6 :: int] (replicate 32 7) ! (1 * 2 + 1) = 5"
    using cells [rule_format, of 1 1] p by simp
  show ?thesis
    using c rf by (simp add: d)
qed

section \<open>The built vector addition\<close>

text \<open>
  Claim C4. Called on two arrays \<open>a\<close> and \<open>b\<close> of length 1024 and an output array of
  1024 zeros, the built function \<open>fadd\<close> succeeds and leaves in the output the
  element-wise sum of \<open>a\<close> and \<open>b\<close>: equal to \<open>a + b\<close> element by element, which is
  what the comparison of the notebook asks for. The element type and its addition are
  arbitrary, so this holds for the float32 addition the kernel and NumPy both perform
  once per element.
\<close>

theorem fadd_elementwise_sum:
  fixes a :: "'a::{plus,zero} list"
  shows "length a = 1024 \<Longrightarrow> length b = 1024 \<Longrightarrow>
     fadd a b (replicate 1024 0) = Inr (map2 (+) a b)"
  using myadd_launch_eq [of "replicate 1024 0" 1024 a b] map2_plus_nth [of a 1024 b]
  by (simp add: fadd_def)

theorem fadd_elementwise_sum_witness:
  "fadd (replicate 1024 (1::int)) (replicate 1024 2) (replicate 1024 0) = Inr (replicate 1024 3)"
proof -
  have m: "map2 (+) (replicate 1024 (1::int)) (replicate 1024 2) = replicate 1024 3"
    by (simp only: zip_replicate map_replicate) simp
  show ?thesis
    using fadd_elementwise_sum [of "replicate 1024 (1::int)" "replicate 1024 2"]
    by (simp only: length_replicate m)
qed

section \<open>The Python callback stage\<close>

text \<open>
  Claim C6. \<open>my_tvm_addone\<close> writes \<open>x + 1\<close> into its output argument; with the extern
  stage built around it, \<open>f(a, b)\<close> on arrays of 1024 elements succeeds and leaves in
  \<open>b\<close> the array \<open>a + 1\<close>, whatever \<open>b\<close> held before. The result is equal to \<open>a + 1\<close>
  element by element, for any element type with an addition and a one, so it is within
  every tolerance of the comparison the notebook makes with the same \<open>a + 1\<close>.
\<close>

theorem f_addone_adds_one:
  fixes a :: "'a::{plus,one} list"
  shows "length a = 1024 \<Longrightarrow> length b = 1024 \<Longrightarrow>
     my_tvm_addone a b = Inr (map (\<lambda>v. v + 1) a)
     \<and> f_addone a b = Inr (map (\<lambda>v. v + 1) a)"
  by (simp add: f_addone_def call_packed_def register_func_def my_tvm_addone_def)

theorem f_addone_adds_one_witness:
  "f_addone (replicate 1024 (41::int)) (replicate 1024 0) = Inr (replicate 1024 42)
   \<and> my_tvm_addone (replicate 1024 (41::int)) (replicate 1024 0) = Inr (replicate 1024 42)"
proof -
  have m: "map (\<lambda>v. v + 1) (replicate 1024 (41::int)) = replicate 1024 42"
    by (simp only: map_replicate) simp
  show ?thesis
    using f_addone_adds_one [of "replicate 1024 (41::int)" "replicate 1024 0"]
    by (simp only: length_replicate m)
qed

section \<open>The order of the pipelines\<close>

lemma some_step_iff: "some_step P cs \<longleftrightarrow> (\<exists>c\<in>set cs. P c)"
  by (induction cs) auto

lemma some_step_take: "some_step P (take k cs) \<Longrightarrow> some_step P cs"
  by (auto simp: some_step_iff dest: in_set_takeD)

text \<open>
  What the two properties say, call by call: every call has its prerequisite among the
  calls before it, and no call after a build transforms the schedule that was built.
\<close>

lemma in_order_nth:
  "in_order seen calls \<longleftrightarrow>
     (\<forall>i<length calls. has_prerequisite (seen @ take i calls) (calls ! i))"
proof (induction calls arbitrary: seen)
  case Nil
  show ?case by simp
next
  case (Cons c rest)
  have "(\<forall>i<length (c # rest). has_prerequisite (seen @ take i (c # rest)) ((c # rest) ! i))
      \<longleftrightarrow> has_prerequisite seen c
          \<and> (\<forall>i<length rest. has_prerequisite ((seen @ [c]) @ take i rest) (rest ! i))"
    by (simp add: All_less_Suc2)
  then show ?case
    by (simp add: Cons.IH)
qed

lemma no_transform_after_build_nth:
  "no_transform_after_build calls \<longleftrightarrow>
     (\<forall>i j s f p. i < j \<longrightarrow> j < length calls \<longrightarrow> calls ! i = Build s f
        \<longrightarrow> calls ! j \<noteq> Transform s p)"
proof (induction calls)
  case Nil
  show ?case by simp
next
  case (Cons c rest)
  have head: "built_schedule_untouched rest c \<longleftrightarrow>
      (\<forall>j s f p. j < length rest \<longrightarrow> c = Build s f \<longrightarrow> rest ! j \<noteq> Transform s p)"
  proof (cases c)
    case (Build s f)
    have "some_step (transforms s) rest \<longleftrightarrow> (\<exists>j<length rest. \<exists>p. rest ! j = Transform s p)"
    proof
      assume "some_step (transforms s) rest"
      then obtain d where d: "d \<in> set rest" "transforms s d"
        by (auto simp: some_step_iff)
      from d(2) obtain p where "d = Transform s p"
        by (cases d) auto
      with d show "\<exists>j<length rest. \<exists>p. rest ! j = Transform s p"
        by (auto simp: in_set_conv_nth)
    next
      assume "\<exists>j<length rest. \<exists>p. rest ! j = Transform s p"
      then obtain j p where "j < length rest" "rest ! j = Transform s p"
        by blast
      then have "Transform s p \<in> set rest"
        by (metis nth_mem)
      moreover have "transforms s (Transform s p)"
        by simp
      ultimately show "some_step (transforms s) rest"
        unfolding some_step_iff by (rule bexI [rotated])
    qed
    then show ?thesis
      using Build by auto
  qed simp_all
  have "(\<forall>i j s f p. i < j \<longrightarrow> j < length (c # rest) \<longrightarrow> (c # rest) ! i = Build s f
        \<longrightarrow> (c # rest) ! j \<noteq> Transform s p)
      \<longleftrightarrow> (\<forall>j s f p. j < length rest \<longrightarrow> c = Build s f \<longrightarrow> rest ! j \<noteq> Transform s p)
          \<and> (\<forall>i j s f p. i < j \<longrightarrow> j < length rest \<longrightarrow> rest ! i = Build s f
                \<longrightarrow> rest ! j \<noteq> Transform s p)"
    (is "?L \<longleftrightarrow> ?H \<and> ?T")
  proof (intro iffI conjI)
    assume l: ?L
    show ?H
    proof (intro allI impI)
      fix j s f p assume "j < length rest" "c = Build s f"
      then show "rest ! j \<noteq> Transform s p"
        using l [rule_format, of 0 "Suc j" s f p] by simp
    qed
    show ?T
    proof (intro allI impI)
      fix i j s f p assume "i < j" "j < length rest" "rest ! i = Build s f"
      then show "rest ! j \<noteq> Transform s p"
        using l [rule_format, of "Suc i" "Suc j" s f p] by simp
    qed
  next
    assume r: "?H \<and> ?T"
    show ?L
    proof (intro allI impI)
      fix i j s f p
      assume ij: "i < j" and j: "j < length (c # rest)" and b: "(c # rest) ! i = Build s f"
      from ij obtain j' where j': "j = Suc j'"
        by (cases j) auto
      show "(c # rest) ! j \<noteq> Transform s p"
      proof (cases i)
        case 0
        then show ?thesis
          using r b j j' by simp
      next
        case (Suc i')
        then show ?thesis
          using r [THEN conjunct2, rule_format, of i' j' s f p] b j j' ij by simp
      qed
    qed
  qed
  then show ?case
    by (simp add: Cons.IH head)
qed

text \<open>A script that stops early, at an error or an exit, has made a prefix of its calls.\<close>

lemma in_order_take: "in_order seen calls \<Longrightarrow> in_order seen (take k calls)"
proof (induction calls arbitrary: seen k)
  case Nil
  show ?case by simp
next
  case (Cons c rest)
  then show ?case
    by (cases k) simp_all
qed

lemma built_schedule_untouched_take:
  "built_schedule_untouched rest c \<Longrightarrow> built_schedule_untouched (take k rest) c"
  by (cases c) (auto dest: some_step_take)

lemma no_transform_after_build_take:
  "no_transform_after_build calls \<Longrightarrow> no_transform_after_build (take k calls)"
proof (induction calls arbitrary: k)
  case Nil
  show ?case by simp
next
  case (Cons c rest)
  then show ?case
    by (cases k) (simp_all add: built_schedule_untouched_take)
qed

lemma pipeline_in_order_take:
  "pipeline_in_order calls \<Longrightarrow> pipeline_in_order (take k calls)"
  by (simp add: pipeline_in_order_def in_order_take no_transform_after_build_take)

lemma get_started_in_order: "pipeline_in_order (get_started tgt)"
  by (simp add: pipeline_in_order_def get_started_def)

lemma reduction_in_order: "pipeline_in_order reduction"
  by (simp add: pipeline_in_order_def reduction_def)

lemma extern_functions_in_order: "pipeline_in_order extern_functions"
  by (simp add: pipeline_in_order_def extern_functions_def)

lemma intrin_math_in_order: "pipeline_in_order intrin_math"
  by (simp add: pipeline_in_order_def intrin_math_def)

lemma tune_and_evaluate_in_order: "pipeline_in_order (tune_and_evaluate layout)"
proof (cases "supported_layout layout")
  case False
  then show ?thesis
    by (simp add: pipeline_in_order_def tune_and_evaluate_def)
next
  case True
  then consider "layout = ''NN''" | "layout = ''NT''" | "layout = ''TN''" | "layout = ''TT''"
    by (auto simp: supported_layout_def)
  then show ?thesis
  proof cases
    case 1
    then show ?thesis
      by (simp add: pipeline_in_order_def tune_and_evaluate_def test_gemm_def
          supported_layout_def cache_stage_def)
  next
    case 2
    then show ?thesis
      by (simp add: pipeline_in_order_def tune_and_evaluate_def test_gemm_def
          supported_layout_def cache_stage_def)
  next
    case 3
    then show ?thesis
      by (simp add: pipeline_in_order_def tune_and_evaluate_def test_gemm_def
          supported_layout_def cache_stage_def)
  next
    case 4
    then show ?thesis
      by (simp add: pipeline_in_order_def tune_and_evaluate_def test_gemm_def
          supported_layout_def cache_stage_def)
  qed
qed

text \<open>
  What \<open>in_sequence\<close> says: the steps are found at increasing positions of the calls.
\<close>

lemma in_sequence_sublist:
  "in_sequence es calls \<Longrightarrow> \<exists>ns. length ns = length es \<and> sorted_wrt (<) ns
     \<and> (\<forall>n\<in>set ns. n < length calls) \<and> map ((!) calls) ns = es"
proof (induction es calls rule: in_sequence.induct)
  case (1 calls)
  show ?case by simp
next
  case (2 e es)
  then show ?case by simp
next
  case (3 e es c calls)
  show ?case
  proof (cases "c = e")
    case True
    with 3(3) have "in_sequence es calls"
      by simp
    from 3(1) [OF True this] obtain ns where len: "length ns = length es"
      and inc: "sorted_wrt (<) ns" and bound: "\<forall>n\<in>set ns. n < length calls"
      and sel: "map ((!) calls) ns = es"
      by (elim exE conjE)
    show ?thesis
    proof (rule exI [of _ "0 # map Suc ns"], intro conjI)
      show "length (0 # map Suc ns) = length (e # es)"
        by (simp add: len)
      show "sorted_wrt (<) (0 # map Suc ns)"
        by (simp add: sorted_wrt_map inc)
      show "\<forall>n\<in>set (0 # map Suc ns). n < length (c # calls)"
        using bound by simp
      have "map ((!) (c # calls)) (map Suc ns) = map ((!) calls) ns"
        by (simp add: comp_def)
      then show "map ((!) (c # calls)) (0 # map Suc ns) = e # es"
        by (simp only: list.map nth_Cons_0 sel True)
    qed
  next
    case False
    with 3(3) have "in_sequence (e # es) calls"
      by simp
    from 3(2) [OF False this] obtain ns where len: "length ns = length (e # es)"
      and inc: "sorted_wrt (<) ns" and bound: "\<forall>n\<in>set ns. n < length calls"
      and sel: "map ((!) calls) ns = e # es"
      by (elim exE conjE)
    show ?thesis
    proof (rule exI [of _ "map Suc ns"], intro conjI)
      show "length (map Suc ns) = length (e # es)"
        by (simp only: length_map len)
      show "sorted_wrt (<) (map Suc ns)"
        by (simp add: sorted_wrt_map inc)
      show "\<forall>n\<in>set (map Suc ns). n < length (c # calls)"
        using bound by simp
      have "map ((!) (c # calls)) (map Suc ns) = map ((!) calls) ns"
        by (simp add: comp_def)
      then show "map ((!) (c # calls)) (map Suc ns) = e # es"
        by (simp only: sel)
    qed
  qed
qed

lemma tune_and_evaluate_steps:
  "in_sequence
     [Declare ''C'', CreateSchedule ''s'' ''C'', Transform ''s'' ''split'',
      Transform ''s'' ''bind'', Transform ''s'' ''compute_at'',
      Build ''s'' ''func'', Run ''func'', Check ''func'']
     (tune_and_evaluate layout) = supported_layout layout"
proof (cases "supported_layout layout")
  case False
  then show ?thesis
    by (simp add: tune_and_evaluate_def)
next
  case True
  then consider "layout = ''NN''" | "layout = ''NT''" | "layout = ''TN''" | "layout = ''TT''"
    by (auto simp: supported_layout_def)
  then show ?thesis
  proof cases
    case 1
    then show ?thesis
      by (simp add: tune_and_evaluate_def test_gemm_def supported_layout_def cache_stage_def)
  next
    case 2
    then show ?thesis
      by (simp add: tune_and_evaluate_def test_gemm_def supported_layout_def cache_stage_def)
  next
    case 3
    then show ?thesis
      by (simp add: tune_and_evaluate_def test_gemm_def supported_layout_def cache_stage_def)
  next
    case 4
    then show ?thesis
      by (simp add: tune_and_evaluate_def test_gemm_def supported_layout_def cache_stage_def)
  qed
qed

text \<open>
  Claim C7. Every kernel pipeline of the notebooks performs its steps in the order
  declare, schedule, build, run, check. The steps are made, one after the other: in Get
  Started the tensor \<open>C\<close> is declared, scheduled and split, \<open>fadd\<close> is built, run and
  checked, and the modules loaded from it are run and checked; in the reduction notebook
  \<open>B\<close> is declared, scheduled (split, rfactor, bind, compute_at), \<open>fcuda\<close> is built, run
  and checked; in the extern notebook both built functions are run and checked;
  \<open>tune_and_evaluate\<close> declares, schedules, builds, runs and checks for every layout it
  supports (and makes no call for another); the intrinsics notebook declares, schedules
  and builds, and neither runs nor checks a kernel. And the order holds at every point a
  script may have reached: a schedule is created for a declared tensor and transformed,
  lowered and built only after it is created; no schedule is transformed after it has
  been built; a kernel is invoked only after it has been built (or loaded from a built
  one); and its output is compared with the reference only after the kernel has been
  invoked.
\<close>

theorem notebook_pipelines_in_order:
  "in_sequence
     [Declare ''C'', CreateSchedule ''s'' ''C'', Transform ''s'' ''split'',
      Build ''s'' ''fadd'', Run ''fadd'', Check ''fadd'',
      Load ''fadd1'' ''fadd'', Run ''fadd1'', Check ''fadd1'',
      Load ''fadd2'' ''fadd'', Run ''fadd2'', Check ''fadd2'']
     (get_started tgt)
   \<and> in_sequence
     [Declare ''C'', CreateSchedule ''s'' ''C'', Transform ''s'' ''split'',
      Transform ''s'' ''bind'', Transform ''s'' ''bind'',
      Build ''s'' ''fadd'', Run ''fadd'', Check ''fadd'',
      Load ''fadd1'' ''fadd'', Load ''fadd1_dev'' ''fadd'', Run ''fadd1'', Check ''fadd1'']
     (get_started ''cuda'')
   \<and> length (get_started ''cuda'') = 18
   \<and> in_sequence
     [Declare ''B'', CreateSchedule ''s_2'' ''B'',
      Transform ''s_2'' ''split'', Transform ''s_2'' ''rfactor'',
      Transform ''s_2'' ''bind'', Transform ''s_2'' ''compute_at'',
      Build ''s_2'' ''fcuda'', Run ''fcuda'', Check ''fcuda'']
     reduction
   \<and> in_sequence
     [Declare ''D'', CreateSchedule ''s_1'' ''D'', Build ''s_1'' ''f_1'', Run ''f_1'', Check ''f_1'',
      Declare ''B'', CreateSchedule ''s_3'' ''B'', Build ''s_3'' ''f_2'', Run ''f_2'', Check ''f_2'']
     extern_functions
   \<and> in_sequence
     [Declare ''B'', CreateSchedule ''s_2'' ''B'', Transform ''s_2'' ''split'',
      Transform ''s_2'' ''bind'', Build ''s_2'' ''fcuda'', Build ''s_2'' ''fopencl'']
     intrin_math
   \<and> \<not> some_step (\<lambda>c. c = Run ''f'' \<or> c = Run ''fcuda'' \<or> c = Run ''fopencl'') intrin_math
   \<and> in_sequence
     [Declare ''C'', CreateSchedule ''s'' ''C'', Transform ''s'' ''split'',
      Transform ''s'' ''bind'', Transform ''s'' ''compute_at'',
      Build ''s'' ''func'', Run ''func'', Check ''func'']
     (tune_and_evaluate layout) = supported_layout layout
   \<and> pipeline_in_order (get_started tgt)
   \<and> pipeline_in_order reduction
   \<and> pipeline_in_order extern_functions
   \<and> pipeline_in_order intrin_math
   \<and> pipeline_in_order (tune_and_evaluate layout)
   \<and> pipeline_in_order (take k (get_started tgt))
   \<and> pipeline_in_order (take k reduction)
   \<and> pipeline_in_order (take k extern_functions)
   \<and> pipeline_in_order (take k intrin_math)
   \<and> pipeline_in_order (take k (tune_and_evaluate layout))"
proof -
  have present: "in_sequence
     [Declare ''C'', CreateSchedule ''s'' ''C'', Transform ''s'' ''split'',
      Build ''s'' ''fadd'', Run ''fadd'', Check ''fadd'',
      Load ''fadd1'' ''fadd'', Run ''fadd1'', Check ''fadd1'',
      Load ''fadd2'' ''fadd'', Run ''fadd2'', Check ''fadd2'']
     (get_started tgt)"
    by (simp add: get_started_def)
  have cuda: "in_sequence
     [Declare ''C'', CreateSchedule ''s'' ''C'', Transform ''s'' ''split'',
      Transform ''s'' ''bind'', Transform ''s'' ''bind'',
      Build ''s'' ''fadd'', Run ''fadd'', Check ''fadd'',
      Load ''fadd1'' ''fadd'', Load ''fadd1_dev'' ''fadd'', Run ''fadd1'', Check ''fadd1'']
     (get_started ''cuda'')"
    by (simp add: get_started_def)
  have len: "length (get_started ''cuda'') = 18"
    by (simp add: get_started_def)
  have red: "in_sequence
     [Declare ''B'', CreateSchedule ''s_2'' ''B'',
      Transform ''s_2'' ''split'', Transform ''s_2'' ''rfactor'',
      Transform ''s_2'' ''bind'', Transform ''s_2'' ''compute_at'',
      Build ''s_2'' ''fcuda'', Run ''fcuda'', Check ''fcuda'']
     reduction"
    by (simp add: reduction_def)
  have ext: "in_sequence
     [Declare ''D'', CreateSchedule ''s_1'' ''D'', Build ''s_1'' ''f_1'', Run ''f_1'', Check ''f_1'',
      Declare ''B'', CreateSchedule ''s_3'' ''B'', Build ''s_3'' ''f_2'', Run ''f_2'', Check ''f_2'']
     extern_functions"
    by (simp add: extern_functions_def)
  have intr: "in_sequence
     [Declare ''B'', CreateSchedule ''s_2'' ''B'', Transform ''s_2'' ''split'',
      Transform ''s_2'' ''bind'', Build ''s_2'' ''fcuda'', Build ''s_2'' ''fopencl'']
     intrin_math"
    by (simp add: intrin_math_def)
  have norun: "\<not> some_step (\<lambda>c. c = Run ''f'' \<or> c = Run ''fcuda'' \<or> c = Run ''fopencl'')
      intrin_math"
    by (simp add: intrin_math_def)
  show ?thesis
    by (intro conjI present cuda len red ext intr norun tune_and_evaluate_steps
        pipeline_in_order_take get_started_in_order reduction_in_order
        extern_functions_in_order intrin_math_in_order tune_and_evaluate_in_order)
qed

end
